theory Spec2Isabelle
  imports Main
begin

section \<open>Document ingestion: extraction, chunking with page provenance, versioned records\<close>

text \<open>
  A shallow embedding of \<^verbatim>\<open>src/app/ingetion.py\<close>. Python strings are modelled as
  \<^typ>\<open>string\<close>, one \<^typ>\<open>char\<close> per character (code points below 256); Python's
  unbounded integers as \<^typ>\<open>int\<close>; the dictionaries with fixed keys as records. A Python
  exception is a value \<open>Inl e\<close>, and a call that never returns is the value \<open>None\<close>.
\<close>

subsection \<open>Data model\<close>

text \<open>A page is the dictionary \<^verbatim>\<open>{"page": n, "text": s}\<close>.\<close>

record page_dict =
  page :: int
  ptext :: string

text \<open>A chunk is the dictionary \<^verbatim>\<open>{"chunk_text": s, "pages": [..]}\<close>.\<close>

record chunk =
  chunk_text :: string
  pages :: "int list"

record metadata =
  md_doc_id :: string
  md_doc_version :: int
  md_is_active :: bool
  md_source :: string
  md_pages :: string
  md_ingested_at :: string

record ingestion_record =
  rec_id :: string
  rec_chunk_text :: string
  rec_metadata :: metadata

text \<open>
  The exceptions of the pipeline: \<open>UnsupportedFormat ext\<close> is the
  \<^verbatim>\<open>ValueError("Unsupported file type: ext")\<close> of \<^verbatim>\<open>extract_pages\<close>; the other two
  come from the file system and from the PDF decoder.
\<close>

datatype error = UnsupportedFormat string | FileNotFound | ExtractionError

subsection \<open>Strings\<close>

text \<open>
  Whitespace as \<^verbatim>\<open>str.isspace\<close>, \<^verbatim>\<open>str.strip\<close> and the pattern \<^verbatim>\<open>\s\<close> see it, on the
  code points below 256: tab, line feed, vertical tab, form feed, carriage return, the four
  separators \<open>0x1C\<close> to \<open>0x1F\<close>, space, next line and the no-break space.
\<close>

definition isspace :: "char \<Rightarrow> bool" where
  "isspace c = (of_char c \<in> {9, 10, 11, 12, 13, 28, 29, 30, 31, 32, 133, 160 :: nat})"

text \<open>\<^verbatim>\<open>s.strip()\<close>.\<close>

definition strip :: "string \<Rightarrow> string" where
  "strip s = rev (dropWhile isspace (rev (dropWhile isspace s)))"

text \<open>\<^verbatim>\<open>re.sub(r"\s+", " ", text)\<close>: every maximal run of whitespace becomes one space.\<close>

function sub_ws :: "string \<Rightarrow> string" where
  "sub_ws [] = []"
| "sub_ws (c # cs) =
     (if isspace c then CHR '' '' # sub_ws (dropWhile isspace cs) else c # sub_ws cs)"
  by pat_completeness auto
termination
  by (relation "measure length") (auto simp: less_Suc_eq_le length_dropWhile_le)

definition clean_text :: "string \<Rightarrow> string" where
  "clean_text text = strip (sub_ws text)"

text \<open>
  A slice \<^verbatim>\<open>xs[start:stop]\<close>: a negative index counts from the end, and every index is
  clamped to the range of the sequence.
\<close>

definition py_index :: "nat \<Rightarrow> int \<Rightarrow> nat" where
  "py_index n i =
     (if i < 0 then (if i + int n < 0 then 0 else nat (i + int n))
      else if int n < i then n else nat i)"

definition py_slice :: "'a list \<Rightarrow> int \<Rightarrow> int \<Rightarrow> 'a list" where
  "py_slice xs start stop =
     (let lo = py_index (length xs) start; hi = py_index (length xs) stop
      in take (hi - lo) (drop lo xs))"

text \<open>\<^verbatim>\<open>str(n)\<close> for an integer: decimal digits, with a minus sign when negative.\<close>

definition digit_char :: "nat \<Rightarrow> char" where
  "digit_char d = char_of (48 + d)"

fun str_nat :: "nat \<Rightarrow> string" where
  "str_nat n = (if n < 10 then [digit_char n] else str_nat (n div 10) @ [digit_char (n mod 10)])"

declare str_nat.simps [simp del]

definition str_int :: "int \<Rightarrow> string" where
  "str_int i = (if i < 0 then CHR ''-'' # str_nat (nat (- i)) else str_nat (nat i))"

text \<open>\<^verbatim>\<open>sep.join(xs)\<close>.\<close>

fun join :: "string \<Rightarrow> string list \<Rightarrow> string" where
  "join sep [] = []"
| "join sep [x] = x"
| "join sep (x # y # ys) = x @ sep @ join sep (y # ys)"

text \<open>\<^verbatim>\<open>s.lower()\<close>, on the code points below 256.\<close>

definition lower_char :: "char \<Rightarrow> char" where
  "lower_char c =
     (let n = (of_char c :: nat)
      in if (65 \<le> n \<and> n \<le> 90) \<or> (192 \<le> n \<and> n \<le> 222 \<and> n \<noteq> 215) then char_of (n + 32) else c)"

definition lower :: "string \<Rightarrow> string" where
  "lower s = map lower_char s"

subsection \<open>Paths\<close>

text \<open>\<^verbatim>\<open>os.path.basename\<close> and \<^verbatim>\<open>os.path.splitext\<close> of \<^verbatim>\<open>posixpath\<close>.\<close>

definition basename :: "string \<Rightarrow> string" where
  "basename p = rev (takeWhile (\<lambda>c. c \<noteq> CHR ''/'') (rev p))"

text \<open>
  The extension starts at the last dot of the last path component, unless only dots stand
  before it in that component (\<^verbatim>\<open>.bashrc\<close> has no extension).
\<close>

definition splitext :: "string \<Rightarrow> string \<times> string" where
  "splitext p =
     (let name = basename p;
          tail = rev (takeWhile (\<lambda>c. c \<noteq> CHR ''.'') (rev name));
          stem = take (length name - length tail - 1) name
      in if CHR ''.'' \<in> set name \<and> filter (\<lambda>c. c \<noteq> CHR ''.'') stem \<noteq> []
         then (take (length p - length tail - 1) p, drop (length p - length tail - 1) p)
         else (p, []))"

subsection \<open>Text extraction\<close>

text \<open>
  The files are the environment of the pipeline: \<open>read_pdf path\<close> is what
  \<^verbatim>\<open>PdfReader(path)\<close> gives, the extracted text of every page in physical order
  (\<open>None\<close> where \<^verbatim>\<open>extract_text()\<close> returns nothing), and \<open>read_txt path\<close> is the
  decoded content of a text file; both fail with an error of the environment.
\<close>

record files =
  read_pdf :: "string \<Rightarrow> error + string option list"
  read_txt :: "string \<Rightarrow> error + string"

text \<open>The loop over \<^verbatim>\<open>enumerate(reader.pages)\<close>, from index \<open>i\<close> on.\<close>

fun pdf_pages :: "nat \<Rightarrow> string option list \<Rightarrow> page_dict list" where
  "pdf_pages i [] = []"
| "pdf_pages i (t # ts) =
     (let text = (case t of None \<Rightarrow> [] | Some s \<Rightarrow> s)
      in if strip text \<noteq> []
         then \<lparr>page = int i + 1, ptext = text\<rparr> # pdf_pages (Suc i) ts
         else pdf_pages (Suc i) ts)"

definition extract_pages_from_pdf :: "files \<Rightarrow> string \<Rightarrow> error + page_dict list" where
  "extract_pages_from_pdf fs file_path =
     (case read_pdf fs file_path of
        Inl e \<Rightarrow> Inl e
      | Inr texts \<Rightarrow> Inr (pdf_pages 0 texts))"

definition extract_pages_from_txt :: "files \<Rightarrow> string \<Rightarrow> error + page_dict list" where
  "extract_pages_from_txt fs file_path =
     (case read_txt fs file_path of
        Inl e \<Rightarrow> Inl e
      | Inr content \<Rightarrow> Inr [\<lparr>page = 1, ptext = content\<rparr>])"

definition extract_pages :: "files \<Rightarrow> string \<Rightarrow> error + page_dict list" where
  "extract_pages fs file_path =
     (let ext = lower (snd (splitext file_path))
      in if ext = ''.pdf'' then extract_pages_from_pdf fs file_path
         else if ext = ''.txt'' \<or> ext = ''.md'' then extract_pages_from_txt fs file_path
         else Inl (UnsupportedFormat ext))"

subsection \<open>Chunking\<close>

text \<open>
  One turn of the loop over the pages: the state is the pair of \<^verbatim>\<open>full_text\<close> and
  \<^verbatim>\<open>char_to_page\<close>.
\<close>

definition stream_step :: "string \<times> int list \<Rightarrow> page_dict \<Rightarrow> string \<times> int list" where
  "stream_step st p =
     (let full_text = fst st; char_to_page = snd st; cleaned = clean_text (ptext p)
      in if cleaned \<noteq> [] then
           (if full_text \<noteq> []
            then (full_text @ '' '' @ cleaned,
                  char_to_page @ [page p] @ replicate (length cleaned) (page p))
            else (full_text @ cleaned, char_to_page @ replicate (length cleaned) (page p)))
         else (full_text, char_to_page))"

definition build_stream :: "page_dict list \<Rightarrow> string \<times> int list" where
  "build_stream ps = foldl stream_step ([], []) ps"

text \<open>
  The window loop. Nothing bounds the number of its turns when the step
  \<open>chunk_size - overlap\<close> is not positive, so the loop is a partial function and
  \<open>None\<close> stands for a run that never ends.
\<close>

partial_function (option) chunk_loop ::
  "string \<Rightarrow> int list \<Rightarrow> int \<Rightarrow> int \<Rightarrow> int \<Rightarrow> chunk list \<Rightarrow> chunk list option" where
  "chunk_loop full_text char_to_page chunk_size overlap start chunks =
     (if start < int (length full_text) then
        (let stop = min (start + chunk_size) (int (length full_text));
             chunk = strip (py_slice full_text start stop)
         in chunk_loop full_text char_to_page chunk_size overlap (start + (chunk_size - overlap))
              (if chunk \<noteq> []
               then chunks @ [\<lparr>chunk_text = chunk,
                      pages = sorted_list_of_set (set (py_slice char_to_page start stop))\<rparr>]
               else chunks))
      else Some chunks)"

declare chunk_loop.simps [code]

definition chunk_pages :: "page_dict list \<Rightarrow> int \<Rightarrow> int \<Rightarrow> chunk list option" where
  "chunk_pages ps chunk_size overlap =
     (let st = build_stream ps
      in chunk_loop (fst st) (snd st) chunk_size overlap 0 [])"

subsection \<open>Versioned ingestion\<close>

definition make_record ::
  "string \<Rightarrow> int \<Rightarrow> bool \<Rightarrow> string \<Rightarrow> string \<Rightarrow> nat \<times> chunk \<Rightarrow> ingestion_record" where
  "make_record doc_id version is_active file_name ingestion_time ic =
     (let idx = fst ic; c = snd ic; page_str = join '','' (map str_int (pages c))
      in \<lparr>rec_id = doc_id @ ''::v'' @ str_int version @ ''::chunk-'' @ str_nat idx,
          rec_chunk_text = chunk_text c,
          rec_metadata =
            \<lparr>md_doc_id = doc_id, md_doc_version = version, md_is_active = is_active,
             md_source = file_name, md_pages = page_str, md_ingested_at = ingestion_time\<rparr>\<rparr>)"

definition build_records ::
  "string \<Rightarrow> int \<Rightarrow> bool \<Rightarrow> string \<Rightarrow> string \<Rightarrow> chunk list \<Rightarrow> ingestion_record list" where
  "build_records doc_id version is_active file_name ingestion_time chunks =
     map (make_record doc_id version is_active file_name ingestion_time) (enumerate 0 chunks)"

text \<open>
  \<^verbatim>\<open>ingest_document\<close>. The constants \<^verbatim>\<open>CHUNK_SIZE\<close> and \<^verbatim>\<open>CHUNK_OVERLAP\<close> of the
  configuration module, the files and the clock (\<open>ingestion_time\<close> is what
  \<^verbatim>\<open>datetime.utcnow().isoformat()\<close> returns during the call) are parameters. The
  diagnostic line printed before returning is left out.
\<close>

definition ingest_document ::
  "files \<Rightarrow> int \<Rightarrow> int \<Rightarrow> string \<Rightarrow> string \<Rightarrow> string \<Rightarrow> int \<Rightarrow> bool
     \<Rightarrow> (error + ingestion_record list) option" where
  "ingest_document fs CHUNK_SIZE CHUNK_OVERLAP ingestion_time file_path doc_id version is_active =
     (let file_name = basename file_path
      in case extract_pages fs file_path of
           Inl e \<Rightarrow> Some (Inl e)
         | Inr ps \<Rightarrow>
             (case chunk_pages ps CHUNK_SIZE CHUNK_OVERLAP of
                None \<Rightarrow> None
              | Some chunks \<Rightarrow>
                  Some (Inr (build_records doc_id version is_active file_name ingestion_time chunks))))"

subsection \<open>Auxiliary notions used in the statements\<close>

text \<open>
  Two records agree on everything but the time of ingestion: the same id, the same
  chunk text and the same metadata fields \<open>doc_id\<close>, \<open>doc_version\<close>, \<open>is_active\<close>,
  \<open>source\<close> and \<open>pages\<close>.
\<close>

definition same_but_time :: "ingestion_record \<Rightarrow> ingestion_record \<Rightarrow> bool" where
  "same_but_time r r' =
     (rec_id r = rec_id r' \<and> rec_chunk_text r = rec_chunk_text r' \<and>
      md_doc_id (rec_metadata r) = md_doc_id (rec_metadata r') \<and>
      md_doc_version (rec_metadata r) = md_doc_version (rec_metadata r') \<and>
      md_is_active (rec_metadata r) = md_is_active (rec_metadata r') \<and>
      md_source (rec_metadata r) = md_source (rec_metadata r') \<and>
      md_pages (rec_metadata r) = md_pages (rec_metadata r'))"

text \<open>A file system for the examples: every text file has the given content, no PDF exists.\<close>

definition one_txt :: "string \<Rightarrow> files" where
  "one_txt content = \<lparr>read_pdf = (\<lambda>_. Inl FileNotFound), read_txt = (\<lambda>_. Inr content)\<rparr>"

text \<open>The pages that contribute text: those whose text does not normalize to the empty string.\<close>

definition contributing :: "page_dict list \<Rightarrow> page_dict list" where
  "contributing ps = filter (\<lambda>p. clean_text (ptext p) \<noteq> []) ps"

text \<open>
  The stream and the character map as the specification describes them: the normalized texts
  of the contributing pages joined by one space, and for every page its number once per
  character, with one more entry in front for the separator of every page but the first.
\<close>

fun joined_map :: "page_dict list \<Rightarrow> int list" where
  "joined_map [] = []"
| "joined_map (p # qs) =
     replicate (length (clean_text (ptext p))) (page p)
     @ concat (map (\<lambda>q. page q # replicate (length (clean_text (ptext q))) (page q)) qs)"

definition joined_text :: "page_dict list \<Rightarrow> string" where
  "joined_text ps = join '' '' (map (\<lambda>p. clean_text (ptext p)) ps)"

text \<open>Example documents.\<close>

definition pages_3_4 :: "page_dict list" where
  "pages_3_4 = [\<lparr>page = 3, ptext = ''It is  the end.''\<rparr>, \<lparr>page = 4, ptext = ''Start here''\<rparr>]"

definition pages_1_2_5 :: "page_dict list" where
  "pages_1_2_5 = [\<lparr>page = 1, ptext = ''Hello  world.''\<rparr>, \<lparr>page = 2, ptext = ''   ''\<rparr>,
     \<lparr>page = 5, ptext = ''Goodbye now.''\<rparr>]"

text \<open>What every emitted chunk satisfies, relative to the character map.\<close>

definition good_chunk :: "int list \<Rightarrow> chunk \<Rightarrow> bool" where
  "good_chunk cm c = (chunk_text c \<noteq> [] \<and> pages c \<noteq> [] \<and> sorted_wrt (<) (pages c) \<and> set (pages c) \<subseteq> set cm)"

text \<open>
  The windows as the specification describes them, for a stream of length \<open>L\<close>: window
  \<open>k\<close> starts at \<open>k * step\<close> and ends at \<open>min (start + chunk_size) L\<close>, where
  \<open>step = chunk_size - overlap\<close>, and there is one window for every start below \<open>L\<close>
  (\<open>window_count\<close> is \<open>L / step\<close> rounded up).
\<close>

definition window :: "nat \<Rightarrow> int \<Rightarrow> int \<Rightarrow> nat \<Rightarrow> int \<times> int" where
  "window L chunk_size overlap k =
     (int k * (chunk_size - overlap), min (int k * (chunk_size - overlap) + chunk_size) (int L))"

definition window_count :: "nat \<Rightarrow> int \<Rightarrow> int \<Rightarrow> nat" where
  "window_count L chunk_size overlap =
     nat ((int L + (chunk_size - overlap) - 1) div (chunk_size - overlap))"

definition windows :: "nat \<Rightarrow> int \<Rightarrow> int \<Rightarrow> (int \<times> int) list" where
  "windows L chunk_size overlap = map (window L chunk_size overlap) [0..<window_count L chunk_size overlap]"

text \<open>The chunk cut from a window, and whether the window is emitted at all.\<close>

definition window_chunk :: "string \<Rightarrow> int list \<Rightarrow> int \<times> int \<Rightarrow> chunk" where
  "window_chunk full_text char_to_page w =
     \<lparr>chunk_text = strip (py_slice full_text (fst w) (snd w)),
      pages = sorted_list_of_set (set (py_slice char_to_page (fst w) (snd w)))\<rparr>"

definition emitted :: "string \<Rightarrow> int \<times> int \<Rightarrow> bool" where
  "emitted full_text w = (strip (py_slice full_text (fst w) (snd w)) \<noteq> [])"

text \<open>
  The shape of a normalized text: no two whitespace characters in a row, and no whitespace at
  either end.
\<close>

fun spaced :: "string \<Rightarrow> bool" where
  "spaced (a # b # cs) = ((\<not> isspace a \<or> \<not> isspace b) \<and> spaced (b # cs))"
| "spaced cs = True"

definition tidy :: "string \<Rightarrow> bool" where
  "tidy s = (spaced s \<and> (s = [] \<or> (\<not> isspace (hd s) \<and> \<not> isspace (last s))))"

section \<open>Properties\<close>

subsection \<open>Unsupported extensions\<close>

text \<open>
  C9. When the lower-cased extension of the path is none of \<open>.pdf\<close>, \<open>.txt\<close> and \<open>.md\<close>,
  the extractor fails with the unsupported-format error, and so does the whole ingestion,
  whatever the files hold and whatever the chunking parameters are: the result is the error,
  never a batch of records, and it is reached without chunking (the outcome does not depend
  on parameters for which chunking would not even return).
\<close>

theorem unsupported_extension_fails:
  assumes "lower (snd (splitext file_path)) \<notin> {''.pdf'', ''.txt'', ''.md''}"
  shows "extract_pages fs file_path = Inl (UnsupportedFormat (lower (snd (splitext file_path))))
    \<and> ingest_document fs CHUNK_SIZE CHUNK_OVERLAP ingestion_time file_path doc_id version is_active
        = Some (Inl (UnsupportedFormat (lower (snd (splitext file_path)))))"
  using assms by (simp add: ingest_document_def extract_pages_def Let_def)

theorem unsupported_extension_fails_witness:
  "lower (snd (splitext ''docs/report.docx'')) = ''.docx''
   \<and> extract_pages (one_txt ''some text'') ''docs/report.docx'' = Inl (UnsupportedFormat ''.docx'')
   \<and> ingest_document (one_txt ''some text'') 1 1 ''2024-01-01T00:00:00'' ''docs/report.docx''
        ''report'' 1 True = Some (Inl (UnsupportedFormat ''.docx''))"
proof -
  have e: "lower (snd (splitext ''docs/report.docx'')) = ''.docx''"
    by code_simp
  have h: "lower (snd (splitext ''docs/report.docx'')) \<notin> {''.pdf'', ''.txt'', ''.md''}"
    unfolding e by simp
  show ?thesis
    using unsupported_extension_fails [OF h, of "one_txt ''some text''" 1 1
        "''2024-01-01T00:00:00''" "''report''" 1 True] e
    by simp
qed

subsection \<open>Re-ingestion\<close>

lemma build_records_same_but_time:
  "list_all2 same_but_time (build_records d v a f t1 cs) (build_records d v a f t2 cs)"
  by (simp add: build_records_def list_all2_map1 list_all2_map2 list_all2_same
      same_but_time_def make_record_def Let_def)

text \<open>
  C5. Two ingestions of the same path from the same files (so extraction gives the same
  pages), with the same \<open>doc_id\<close>, version and activation flag, differ at most in the time
  stamp: both fail with the same error, or neither returns, or both return batches of the
  same length whose corresponding records agree on the id, the chunk text and every
  metadata field except \<open>ingested_at\<close>.
\<close>

theorem reingestion_same_but_time:
  "rel_option (rel_sum (=) (list_all2 same_but_time))
     (ingest_document fs CHUNK_SIZE CHUNK_OVERLAP t1 file_path doc_id version is_active)
     (ingest_document fs CHUNK_SIZE CHUNK_OVERLAP t2 file_path doc_id version is_active)"
  by (simp add: ingest_document_def Let_def build_records_same_but_time
      split: sum.split option.split)

theorem reingestion_same_but_time_witness:
  "rel_option (rel_sum (=) (list_all2 same_but_time))
     (ingest_document (one_txt ''Hello  world. Goodbye now.'') 10 2 ''2024-01-01T00:00:00''
        ''notes.txt'' ''notes'' 1 True)
     (ingest_document (one_txt ''Hello  world. Goodbye now.'') 10 2 ''2024-06-30T12:00:00''
        ''notes.txt'' ''notes'' 1 True)
   \<and> map rec_id
        (case ingest_document (one_txt ''Hello  world. Goodbye now.'') 10 2
            ''2024-01-01T00:00:00'' ''notes.txt'' ''notes'' 1 True of
           Some (Inr rs) \<Rightarrow> rs | _ \<Rightarrow> [])
      = [''notes::v1::chunk-0'', ''notes::v1::chunk-1'', ''notes::v1::chunk-2'',
         ''notes::v1::chunk-3'']"
proof -
  have "map rec_id
        (case ingest_document (one_txt ''Hello  world. Goodbye now.'') 10 2
            ''2024-01-01T00:00:00'' ''notes.txt'' ''notes'' 1 True of
           Some (Inr rs) \<Rightarrow> rs | _ \<Rightarrow> [])
      = [''notes::v1::chunk-0'', ''notes::v1::chunk-1'', ''notes::v1::chunk-2'',
         ''notes::v1::chunk-3'']"
    by code_simp
  then show ?thesis
    using reingestion_same_but_time [of "one_txt ''Hello  world. Goodbye now.''" 10 2
        "''2024-01-01T00:00:00''" "''notes.txt''" "''notes''" 1 True "''2024-06-30T12:00:00''"]
    by simp
qed

subsection \<open>The stream and the character map\<close>

lemma build_stream_snoc: "build_stream (ps @ [p]) = stream_step (build_stream ps) p"
  by (simp add: build_stream_def)

lemma stream_step_empty: "clean_text (ptext p) = [] \<Longrightarrow> stream_step st p = st"
  by (simp add: stream_step_def)

lemma stream_step_length:
  "length (snd st) = length (fst st) \<Longrightarrow>
   length (snd (stream_step st p)) = length (fst (stream_step st p))"
  by (simp add: stream_step_def Let_def)

lemma build_stream_length: "length (snd (build_stream ps)) = length (fst (build_stream ps))"
proof (induction ps rule: rev_induct)
  case Nil
  show ?case by (simp add: build_stream_def)
next
  case (snoc p ps)
  then show ?case by (simp add: build_stream_snoc stream_step_length)
qed

lemma join_snoc: "join sep (xs @ [x]) = (if xs = [] then x else join sep xs @ sep @ x)"
  by (induction sep xs rule: join.induct) auto

lemma join_eq_Nil: "\<forall>x\<in>set xs. x \<noteq> [] \<Longrightarrow> join sep xs = [] \<longleftrightarrow> xs = []"
  by (induction sep xs rule: join.induct) auto

lemma joined_map_snoc:
  "joined_map (ps @ [p]) =
     (if ps = [] then replicate (length (clean_text (ptext p))) (page p)
      else joined_map ps @ page p # replicate (length (clean_text (ptext p))) (page p))"
  by (cases ps) auto

lemma joined_text_empty: "joined_text [] = []"
  by (simp add: joined_text_def)

lemma joined_text_Nil: "joined_text (contributing ps) = [] \<longleftrightarrow> contributing ps = []"
  using join_eq_Nil [of "map (\<lambda>p. clean_text (ptext p)) (contributing ps)" "'' ''"]
  by (auto simp: joined_text_def contributing_def)

lemma build_stream_joined:
  "build_stream ps = (joined_text (contributing ps), joined_map (contributing ps))"
proof (induction ps rule: rev_induct)
  case Nil
  show ?case by (simp add: build_stream_def contributing_def joined_text_def)
next
  case (snoc p ps)
  show ?case
  proof (cases "clean_text (ptext p) = []")
    case True
    then have "contributing (ps @ [p]) = contributing ps"
      by (simp add: contributing_def)
    with True snoc show ?thesis
      by (simp add: build_stream_snoc stream_step_empty)
  next
    case False
    then have c: "contributing (ps @ [p]) = contributing ps @ [p]"
      by (simp add: contributing_def)
    have t: "joined_text (contributing ps @ [p]) =
        (if contributing ps = [] then clean_text (ptext p)
         else joined_text (contributing ps) @ '' '' @ clean_text (ptext p))"
      by (simp add: joined_text_def join_snoc)
    show ?thesis
      using False joined_text_Nil [of ps]
      by (simp add: build_stream_snoc snoc stream_step_def c t joined_map_snoc Let_def joined_text_empty)
  qed
qed

lemma stream_step_set:
  "set (snd (stream_step st p)) =
     (if clean_text (ptext p) = [] then set (snd st) else insert (page p) (set (snd st)))"
  by (auto simp: stream_step_def Let_def)

lemma build_stream_set: "set (snd (build_stream ps)) = page ` set (contributing ps)"
proof (induction ps rule: rev_induct)
  case Nil
  show ?case by (simp add: build_stream_def contributing_def)
next
  case (snoc p ps)
  then show ?case
    by (auto simp: build_stream_snoc stream_step_set contributing_def)
qed

lemma stream_step_sorted:
  assumes "sorted (snd st)" "\<forall>n\<in>set (snd st). n \<le> page p"
  shows "sorted (snd (stream_step st p))"
  using assms by (auto simp: stream_step_def Let_def sorted_append)

lemma build_stream_sorted: "sorted (map page ps) \<Longrightarrow> sorted (snd (build_stream ps))"
proof (induction ps rule: rev_induct)
  case Nil
  show ?case by (simp add: build_stream_def)
next
  case (snoc p ps)
  then have s: "sorted (snd (build_stream ps))" and le: "\<forall>q\<in>set ps. page q \<le> page p"
    by (auto simp: sorted_append)
  have "\<forall>n\<in>set (snd (build_stream ps)). n \<le> page p"
    using le by (auto simp: build_stream_set contributing_def)
  with s show ?case
    by (simp add: build_stream_snoc stream_step_sorted)
qed

text \<open>
  C6. The stream is the normalized texts of the contributing pages joined by exactly one
  space, and the character map holds, for every page after the first contributing one, one
  entry for the separator in front of the entries of the page's characters, with the number
  of that page: when a page with text is appended to a stream that is not empty, the
  separator goes at the end of the old stream and its map entry is the number of the new
  (following) page.
\<close>

theorem separator_belongs_to_following_page:
  "build_stream ps = (joined_text (contributing ps), joined_map (contributing ps))
   \<and> (fst (build_stream ps) \<noteq> [] \<and> clean_text (ptext q) \<noteq> [] \<longrightarrow>
        build_stream (ps @ [q]) =
          (fst (build_stream ps) @ '' '' @ clean_text (ptext q),
           snd (build_stream ps) @ [page q] @ replicate (length (clean_text (ptext q))) (page q)))"
  by (simp add: build_stream_joined [symmetric] build_stream_snoc stream_step_def Let_def)

theorem separator_belongs_to_following_page_witness:
  "fst (build_stream [\<lparr>page = 1, ptext = ''Hello  world.''\<rparr>, \<lparr>page = 2, ptext = ''   ''\<rparr>]) \<noteq> []
   \<and> clean_text (ptext \<lparr>page = 5, ptext = ''Goodbye now.''\<rparr>) \<noteq> []
   \<and> build_stream pages_1_2_5 =
       (''Hello world. Goodbye now.'',
        [1, 1, 1, 1, 1, 1, 1, 1, 1, 1, 1, 1, 5, 5, 5, 5, 5, 5, 5, 5, 5, 5, 5, 5, 5])
   \<and> contributing pages_1_2_5 =
       [\<lparr>page = 1, ptext = ''Hello  world.''\<rparr>, \<lparr>page = 5, ptext = ''Goodbye now.''\<rparr>]"
proof -
  let ?ps = "[\<lparr>page = 1, ptext = ''Hello  world.''\<rparr>, \<lparr>page = 2, ptext = ''   ''\<rparr>]"
  let ?q = "\<lparr>page = 5, ptext = ''Goodbye now.''\<rparr>"
  have a: "build_stream ?ps = (''Hello world.'', [1, 1, 1, 1, 1, 1, 1, 1, 1, 1, 1, 1])"
    by code_simp
  have b: "clean_text (ptext ?q) = ''Goodbye now.''"
    by code_simp
  have c: "contributing pages_1_2_5 = [\<lparr>page = 1, ptext = ''Hello  world.''\<rparr>, ?q]"
    by code_simp
  have d: "pages_1_2_5 = ?ps @ [?q]"
    by (simp add: pages_1_2_5_def)
  have ne: "fst (build_stream ?ps) \<noteq> [] \<and> clean_text (ptext ?q) \<noteq> []"
    unfolding a b by simp
  with separator_belongs_to_following_page [of ?ps ?q]
  have "build_stream (?ps @ [?q]) =
          (fst (build_stream ?ps) @ '' '' @ clean_text (ptext ?q),
           snd (build_stream ?ps) @ [page ?q] @ replicate (length (clean_text (ptext ?q))) (page ?q))"
    by blast
  then have "build_stream pages_1_2_5 =
       (''Hello world. Goodbye now.'',
        [1, 1, 1, 1, 1, 1, 1, 1, 1, 1, 1, 1, 5, 5, 5, 5, 5, 5, 5, 5, 5, 5, 5, 5, 5])"
    unfolding a b d by simp
  with ne c show ?thesis
    by blast
qed

text \<open>
  C7. After every page processed (for every prefix of the input), the character map is as
  long as the stream; when the pages come in ascending order of page number, the map is
  non-decreasing after every page; and a page that normalizes to the empty string leaves the
  stream and the map as they were.
\<close>

theorem char_page_map_invariant:
  "(\<forall>n\<le>length ps. length (snd (build_stream (take n ps))) = length (fst (build_stream (take n ps))))
   \<and> (sorted (map page ps) \<longrightarrow> (\<forall>n\<le>length ps. sorted (snd (build_stream (take n ps)))))
   \<and> (clean_text (ptext p) = [] \<longrightarrow> stream_step st p = st)"
proof (intro conjI allI impI)
  fix n
  show "length (snd (build_stream (take n ps))) = length (fst (build_stream (take n ps)))"
    by (rule build_stream_length)
next
  fix n
  assume "sorted (map page ps)"
  then have "sorted (map page (take n ps))"
    by (simp add: take_map [symmetric] sorted_wrt_take)
  then show "sorted (snd (build_stream (take n ps)))"
    by (rule build_stream_sorted)
next
  assume "clean_text (ptext p) = []"
  then show "stream_step st p = st"
    by (rule stream_step_empty)
qed

theorem char_page_map_invariant_witness:
  "sorted (map page pages_1_2_5)
   \<and> length (snd (build_stream (take 3 pages_1_2_5))) = 25
   \<and> length (fst (build_stream (take 3 pages_1_2_5))) = 25
   \<and> sorted (snd (build_stream (take 3 pages_1_2_5)))
   \<and> clean_text (ptext \<lparr>page = 2, ptext = ''   ''\<rparr>) = []
   \<and> stream_step (''Hello world.'', replicate 12 1) \<lparr>page = 2, ptext = ''   ''\<rparr>
       = (''Hello world.'', replicate 12 1)"
proof -
  have s: "sorted (map page pages_1_2_5)"
    by (simp add: pages_1_2_5_def)
  have e: "clean_text (ptext \<lparr>page = 2, ptext = ''   ''\<rparr>) = []"
    by code_simp
  have l: "length (fst (build_stream (take 3 pages_1_2_5))) = 25"
    by code_simp
  have n: "(3::nat) \<le> length pages_1_2_5"
    by (simp add: pages_1_2_5_def)
  show ?thesis
    using char_page_map_invariant [of pages_1_2_5 "\<lparr>page = 2, ptext = ''   ''\<rparr>"
        "(''Hello world.'', replicate 12 1)"] s e l n
    by simp
qed

subsection \<open>Emitted chunks\<close>

lemma py_slice_length: "length xs = length ys \<Longrightarrow> length (py_slice xs a b) = length (py_slice ys a b)"
  by (simp add: py_slice_def Let_def)

lemma py_slice_subset: "set (py_slice xs a b) \<subseteq> set xs"
  unfolding py_slice_def Let_def
  by (meson set_drop_subset set_take_subset subset_trans)

lemma strip_Nil [simp]: "strip [] = []"
  by (simp add: strip_def)

lemma window_good:
  assumes "length cm = length ft" "strip (py_slice ft a b) \<noteq> []"
  shows "good_chunk cm \<lparr>chunk_text = strip (py_slice ft a b),
           pages = sorted_list_of_set (set (py_slice cm a b))\<rparr>"
proof -
  have "py_slice ft a b \<noteq> []" using assms(2) by auto
  then have "py_slice cm a b \<noteq> []"
    using py_slice_length [OF assms(1), of a b] by (metis length_0_conv)
  then show ?thesis
    using assms(2) py_slice_subset [of cm a b]
    by (simp add: good_chunk_def sorted_list_of_set.sorted_key_list_of_set_eq_Nil_iff)
qed

lemma chunk_loop_good:
  assumes "chunk_loop ft cm cs ov start chunks = Some res"
  shows "length cm = length ft \<longrightarrow> (\<forall>c\<in>set chunks. good_chunk cm c) \<longrightarrow> (\<forall>c\<in>set res. good_chunk cm c)"
  apply (rule chunk_loop.raw_induct [OF _ assms])
  subgoal premises prems for loop ft cm cs ov start chunks res
  proof (cases "start < int (length ft)")
    case True
    show ?thesis
    proof (intro impI)
      assume len: "length cm = length ft" and good: "\<forall>c\<in>set chunks. good_chunk cm c"
      let ?stop = "min (start + cs) (int (length ft))"
      let ?chunk = "strip (py_slice ft start ?stop)"
      let ?chunks = "if ?chunk \<noteq> [] then chunks @ [\<lparr>chunk_text = ?chunk,
          pages = sorted_list_of_set (set (py_slice cm start ?stop))\<rparr>] else chunks"
      have run: "loop ft cm cs ov (start + (cs - ov)) ?chunks = Some res"
        using prems(2) True by (simp add: Let_def)
      have "\<forall>c\<in>set ?chunks. good_chunk cm c"
        using good window_good [OF len] by auto
      with prems(1) [OF run] len show "\<forall>c\<in>set res. good_chunk cm c"
        by blast
    qed
  next
    case False
    with prems(2) show ?thesis by simp
  qed
  done

lemma chunk_pages_good:
  assumes "chunk_pages ps cs ov = Some chunks"
  shows "\<forall>c\<in>set chunks. good_chunk (snd (build_stream ps)) c"
  using chunk_loop_good [of "fst (build_stream ps)" "snd (build_stream ps)" cs ov 0 "[]" chunks]
    assms build_stream_length [of ps]
  by (simp add: chunk_pages_def Let_def)

text \<open>
  C8. Whenever the chunker returns, every chunk it emitted has a non-empty text and a
  non-empty list of pages that is strictly ascending, hence without duplicates.
\<close>

theorem emitted_chunk_invariant:
  assumes "chunk_pages ps chunk_size overlap = Some chunks" "c \<in> set chunks"
  shows "chunk_text c \<noteq> [] \<and> pages c \<noteq> [] \<and> sorted_wrt (<) (pages c) \<and> distinct (pages c)"
  using chunk_pages_good [OF assms(1)] assms(2)
  by (auto simp: good_chunk_def strict_sorted_iff)

theorem emitted_chunk_invariant_witness:
  "chunk_pages pages_3_4 10 2 =
     Some [\<lparr>chunk_text = ''It is the'', pages = [3]\<rparr>, \<lparr>chunk_text = ''e end. Sta'', pages = [3, 4]\<rparr>,
           \<lparr>chunk_text = ''tart here'', pages = [4]\<rparr>, \<lparr>chunk_text = ''e'', pages = [4]\<rparr>]
   \<and> sorted_wrt (<) (pages \<lparr>chunk_text = ''e end. Sta'', pages = [3, 4]\<rparr>)
   \<and> distinct (pages \<lparr>chunk_text = ''e end. Sta'', pages = [3, 4]\<rparr>)"
proof -
  have h: "chunk_pages pages_3_4 10 2 =
     Some [\<lparr>chunk_text = ''It is the'', pages = [3]\<rparr>, \<lparr>chunk_text = ''e end. Sta'', pages = [3, 4]\<rparr>,
           \<lparr>chunk_text = ''tart here'', pages = [4]\<rparr>, \<lparr>chunk_text = ''e'', pages = [4]\<rparr>]"
    by code_simp
  have m: "\<lparr>chunk_text = ''e end. Sta'', pages = [3, 4]\<rparr> \<in>
     set [\<lparr>chunk_text = ''It is the'', pages = [3]\<rparr>, \<lparr>chunk_text = ''e end. Sta'', pages = [3, 4]\<rparr>,
           \<lparr>chunk_text = ''tart here'', pages = [4]\<rparr>, \<lparr>chunk_text = ''e'', pages = [4]\<rparr>]"
    by simp
  from emitted_chunk_invariant [OF h m] h show ?thesis
    by blast
qed

lemma build_records_pages:
  assumes "r \<in> set (build_records d v a f t chunks)"
  shows "\<exists>c\<in>set chunks. md_pages (rec_metadata r) = join '','' (map str_int (pages c))"
  using assms
  by (auto simp: build_records_def make_record_def Let_def in_set_enumerate_eq)

text \<open>
  C10. Every page number listed by an emitted chunk is the number of an input page whose
  text does not normalize to the empty string; and the \<open>pages\<close> metadata of every record of
  an ingestion is the comma-joined rendering of such numbers.
\<close>

theorem cited_pages_contributed_text:
  "(chunk_pages ps CHUNK_SIZE CHUNK_OVERLAP = Some chunks \<longrightarrow>
      (\<forall>c\<in>set chunks. \<forall>n\<in>set (pages c). \<exists>p\<in>set ps. page p = n \<and> clean_text (ptext p) \<noteq> []))
   \<and> (extract_pages fs file_path = Inr ps \<longrightarrow>
      ingest_document fs CHUNK_SIZE CHUNK_OVERLAP ingestion_time file_path doc_id version is_active
        = Some (Inr records) \<longrightarrow>
      (\<forall>r\<in>set records. \<exists>ns. md_pages (rec_metadata r) = join '','' (map str_int ns) \<and>
         (\<forall>n\<in>set ns. \<exists>p\<in>set ps. page p = n \<and> clean_text (ptext p) \<noteq> [])))"
proof -
  have a: "\<forall>c\<in>set cs. \<forall>n\<in>set (pages c). \<exists>p\<in>set ps. page p = n \<and> clean_text (ptext p) \<noteq> []"
    if "chunk_pages ps CHUNK_SIZE CHUNK_OVERLAP = Some cs" for cs
    using chunk_pages_good [OF that]
    by (fastforce simp: good_chunk_def build_stream_set contributing_def)
  have b: "\<exists>ns. md_pages (rec_metadata r) = join '','' (map str_int ns) \<and>
         (\<forall>n\<in>set ns. \<exists>p\<in>set ps. page p = n \<and> clean_text (ptext p) \<noteq> [])"
    if e: "extract_pages fs file_path = Inr ps"
      and i: "ingest_document fs CHUNK_SIZE CHUNK_OVERLAP ingestion_time file_path doc_id version
        is_active = Some (Inr records)"
      and r: "r \<in> set records" for r
  proof -
    from e i obtain cs where cs: "chunk_pages ps CHUNK_SIZE CHUNK_OVERLAP = Some cs"
      and rs: "records = build_records doc_id version is_active (basename file_path) ingestion_time cs"
      by (auto simp: ingest_document_def Let_def split: option.splits)
    from build_records_pages r rs obtain c where "c \<in> set cs"
      and "md_pages (rec_metadata r) = join '','' (map str_int (pages c))"
      by blast
    with a [OF cs] show ?thesis by blast
  qed
  from a b show ?thesis by blast
qed

theorem cited_pages_contributed_text_witness:
  "chunk_pages [\<lparr>page = 1, ptext = ''Hello  world.''\<rparr>] 20 5
     = Some [\<lparr>chunk_text = ''Hello world.'', pages = [1]\<rparr>]
   \<and> extract_pages (one_txt ''Hello  world.'') ''notes.txt''
       = Inr [\<lparr>page = 1, ptext = ''Hello  world.''\<rparr>]
   \<and> ingest_document (one_txt ''Hello  world.'') 20 5 ''2024-01-01T00:00:00'' ''notes.txt''
        ''notes'' 1 True
       = Some (Inr [\<lparr>rec_id = ''notes::v1::chunk-0'', rec_chunk_text = ''Hello world.'',
            rec_metadata = \<lparr>md_doc_id = ''notes'', md_doc_version = 1, md_is_active = True,
              md_source = ''notes.txt'', md_pages = ''1'',
              md_ingested_at = ''2024-01-01T00:00:00''\<rparr>\<rparr>])
   \<and> (\<exists>p\<in>set [\<lparr>page = 1, ptext = ''Hello  world.''\<rparr>]. page p = 1 \<and> clean_text (ptext p) \<noteq> [])
   \<and> (\<exists>ns. ''1'' = join '','' (map str_int ns) \<and>
         (\<forall>n\<in>set ns. \<exists>p\<in>set [\<lparr>page = 1, ptext = ''Hello  world.''\<rparr>].
            page p = n \<and> clean_text (ptext p) \<noteq> []))"
proof -
  let ?ps = "[\<lparr>page = 1, ptext = ''Hello  world.''\<rparr>]"
  let ?r = "\<lparr>rec_id = ''notes::v1::chunk-0'', rec_chunk_text = ''Hello world.'',
            rec_metadata = \<lparr>md_doc_id = ''notes'', md_doc_version = 1, md_is_active = True,
              md_source = ''notes.txt'', md_pages = ''1'',
              md_ingested_at = ''2024-01-01T00:00:00''\<rparr>\<rparr>"
  have c: "chunk_pages ?ps 20 5 = Some [\<lparr>chunk_text = ''Hello world.'', pages = [1]\<rparr>]"
    by code_simp
  have e: "extract_pages (one_txt ''Hello  world.'') ''notes.txt'' = Inr ?ps"
    by code_simp
  have i: "ingest_document (one_txt ''Hello  world.'') 20 5 ''2024-01-01T00:00:00'' ''notes.txt''
        ''notes'' 1 True = Some (Inr [?r])"
    by code_simp
  note t = cited_pages_contributed_text [of ?ps 20 5 "[\<lparr>chunk_text = ''Hello world.'', pages = [1]\<rparr>]"
      "one_txt ''Hello  world.''" "''notes.txt''" "''2024-01-01T00:00:00''" "''notes''" 1 True "[?r]"]
  from t c have "\<exists>p\<in>set ?ps. page p = 1 \<and> clean_text (ptext p) \<noteq> []"
    by simp
  moreover from t e i have "\<exists>ns. ''1'' = join '','' (map str_int ns) \<and>
         (\<forall>n\<in>set ns. \<exists>p\<in>set ?ps. page p = n \<and> clean_text (ptext p) \<noteq> [])"
    by simp
  ultimately show ?thesis
    using c e i by blast
qed

subsection \<open>The window loop\<close>

lemma window_count_iff:
  assumes "0 < cs - ov"
  shows "k < window_count L cs ov \<longleftrightarrow> int k * (cs - ov) < int L"
proof -
  define s where "s = cs - ov"
  define a where "a = int L + s - 1"
  have pos: "0 < s" using assms by (simp add: s_def)
  have "int k < a div s \<longleftrightarrow> (int k + 1) * s \<le> a"
  proof
    assume "int k < a div s"
    then have "int k + 1 \<le> a div s" by simp
    then have "(int k + 1) * s \<le> (a div s) * s"
      using pos by (simp add: mult_right_mono)
    also have "\<dots> \<le> a"
      using pos_mod_sign [OF pos, of a] div_mult_mod_eq [of a s] by linarith
    finally show "(int k + 1) * s \<le> a" .
  next
    assume "(int k + 1) * s \<le> a"
    then have "((int k + 1) * s) div s \<le> a div s"
      using pos by (rule zdiv_mono1)
    then show "int k < a div s"
      using pos by simp
  qed
  also have "\<dots> \<longleftrightarrow> int k * s < int L"
    by (simp add: a_def algebra_simps) linarith
  finally show ?thesis
    by (simp add: window_count_def s_def a_def zless_nat_eq_int_zless)
qed

lemma chunk_loop_diverges_aux:
  assumes "chunk_loop ft cm cs ov start chunks = Some res"
  shows "\<not> (cs \<le> ov \<and> start < int (length ft))"
  apply (rule chunk_loop.raw_induct [OF _ assms])
  subgoal premises prems for loop ft cm cs ov start chunks res
  proof
    assume a: "cs \<le> ov \<and> start < int (length ft)"
    let ?stop = "min (start + cs) (int (length ft))"
    let ?chunk = "strip (py_slice ft start ?stop)"
    let ?chunks = "if ?chunk \<noteq> [] then chunks @ [\<lparr>chunk_text = ?chunk,
          pages = sorted_list_of_set (set (py_slice cm start ?stop))\<rparr>] else chunks"
    have run: "loop ft cm cs ov (start + (cs - ov)) ?chunks = Some res"
      using prems(2) a by (simp add: Let_def)
    from prems(1) [OF run] a show False by simp
  qed
  done

lemma chunk_loop_diverges:
  "cs \<le> ov \<Longrightarrow> start < int (length ft) \<Longrightarrow> chunk_loop ft cm cs ov start chunks = None"
  using chunk_loop_diverges_aux [of ft cm cs ov start chunks] by (cases "chunk_loop ft cm cs ov start chunks") auto

lemma chunk_loop_windows:
  assumes "0 < cs - ov"
  shows "chunk_loop ft cm cs ov (int k * (cs - ov)) chunks =
     Some (chunks @ map (window_chunk ft cm)
       (filter (emitted ft) (map (window (length ft) cs ov) [k..<window_count (length ft) cs ov])))"
proof (induction "window_count (length ft) cs ov - k" arbitrary: k chunks)
  case 0
  then have "\<not> k < window_count (length ft) cs ov" by simp
  then have "\<not> int k * (cs - ov) < int (length ft)"
    by (simp add: window_count_iff [OF assms])
  then show ?case
    using 0 by (subst chunk_loop.simps) simp
next
  case (Suc n)
  then have lt: "k < window_count (length ft) cs ov" by simp
  then have s: "int k * (cs - ov) < int (length ft)"
    by (simp add: window_count_iff [OF assms])
  have n: "n = window_count (length ft) cs ov - Suc k" using Suc(2) by simp
  have nxt: "int k * (cs - ov) + (cs - ov) = int (Suc k) * (cs - ov)"
    by (simp add: algebra_simps)
  show ?case
    apply (subst chunk_loop.simps)
    apply (simp only: s if_True Let_def nxt Suc(1) [OF n])
    apply (simp add: upt_conv_Cons [OF lt] window_chunk_def emitted_def window_def)
    done
qed

lemma chunk_pages_windows:
  assumes "overlap < chunk_size"
  shows "chunk_pages ps chunk_size overlap =
     Some (map (window_chunk (fst (build_stream ps)) (snd (build_stream ps)))
       (filter (emitted (fst (build_stream ps)))
         (windows (length (fst (build_stream ps))) chunk_size overlap)))"
proof -
  have "0 < chunk_size - overlap" using assms by simp
  from chunk_loop_windows [OF this, of "fst (build_stream ps)" "snd (build_stream ps)" 0 "[]"]
  show ?thesis
    by (simp add: chunk_pages_def Let_def windows_def)
qed

lemma chunk_pages_empty_stream:
  "fst (build_stream ps) = [] \<Longrightarrow> chunk_pages ps chunk_size overlap = Some []"
  by (simp add: chunk_pages_def Let_def chunk_loop.simps)

lemma chunk_pages_diverges:
  "chunk_size \<le> overlap \<Longrightarrow> fst (build_stream ps) \<noteq> [] \<Longrightarrow>
   chunk_pages ps chunk_size overlap = None"
  by (simp add: chunk_pages_def Let_def chunk_loop_diverges)

text \<open>
  C3 (as the code has it). The chunker validates nothing and has no error outcome. With
  \<open>overlap \<ge> chunk_size\<close> it returns the empty list when the normalized stream is empty,
  and does not return otherwise; with \<open>overlap < chunk_size\<close> it returns a list of chunks,
  whatever the signs of the two sizes.
\<close>

theorem invalid_parameters_not_rejected:
  "(chunk_size \<le> overlap \<longrightarrow>
      chunk_pages ps chunk_size overlap = (if fst (build_stream ps) = [] then Some [] else None))
   \<and> (overlap < chunk_size \<longrightarrow> (\<exists>chunks. chunk_pages ps chunk_size overlap = Some chunks))"
  by (simp add: chunk_pages_empty_stream chunk_pages_diverges chunk_pages_windows)

theorem invalid_parameters_not_rejected_witness:
  "chunk_pages [\<lparr>page = 1, ptext = ''Hello''\<rparr>] 4 6 = None
   \<and> chunk_pages [\<lparr>page = 1, ptext = ''   ''\<rparr>] 4 6 = Some []
   \<and> (\<exists>chunks. chunk_pages [\<lparr>page = 1, ptext = ''Hello''\<rparr>] (- 1) (- 3) = Some chunks)"
proof -
  have a: "fst (build_stream [\<lparr>page = 1, ptext = ''Hello''\<rparr>]) = ''Hello''"
    by code_simp
  have b: "fst (build_stream [\<lparr>page = 1, ptext = ''   ''\<rparr>]) = []"
    by code_simp
  show ?thesis
    using invalid_parameters_not_rejected [of 4 6 "[\<lparr>page = 1, ptext = ''Hello''\<rparr>]"]
      invalid_parameters_not_rejected [of 4 6 "[\<lparr>page = 1, ptext = ''   ''\<rparr>]"]
      invalid_parameters_not_rejected [of "- 1" "- 3" "[\<lparr>page = 1, ptext = ''Hello''\<rparr>]"]
    unfolding a b by simp
qed

text \<open>
  With \<open>chunk_size = overlap = 1\<close> the call does not return on the one-page document
  \<open>a\<close>, and returns the empty list on a page of one space; with \<open>chunk_size = 0\<close> and
  \<open>overlap = -1\<close> it returns the empty list on the document \<open>a b\<close>.
\<close>

theorem invalid_parameters_counterexample:
  "chunk_pages [\<lparr>page = 1, ptext = ''a''\<rparr>] 1 1 = None
   \<and> chunk_pages [\<lparr>page = 1, ptext = '' ''\<rparr>] 1 1 = Some []
   \<and> chunk_pages [\<lparr>page = 1, ptext = ''a b''\<rparr>] 0 (- 1) = Some []"
proof -
  have a: "fst (build_stream [\<lparr>page = 1, ptext = ''a''\<rparr>]) \<noteq> []"
    by code_simp
  have "chunk_pages [\<lparr>page = 1, ptext = ''a''\<rparr>] 1 1 = None"
    by (rule chunk_pages_diverges [OF _ a]) simp
  moreover have "chunk_pages [\<lparr>page = 1, ptext = '' ''\<rparr>] 1 1 = Some []"
    by code_simp
  moreover have "chunk_pages [\<lparr>page = 1, ptext = ''a b''\<rparr>] 0 (- 1) = Some []"
    by code_simp
  ultimately show ?thesis by blast
qed

subsection \<open>Record identifiers\<close>

lemma digit_char_code: "d < 10 \<Longrightarrow> of_char (digit_char d) = (48 + d :: nat)"
  by (simp add: digit_char_def)

lemma digit_char_inj:
  assumes "d < 10" "e < 10" "digit_char d = digit_char e"
  shows "d = e"
proof -
  have "(of_char (digit_char d) :: nat) = of_char (digit_char e)"
    using assms(3) by (rule arg_cong)
  then have "48 + d = 48 + e"
    unfolding digit_char_code [OF assms(1)] digit_char_code [OF assms(2)] .
  then show ?thesis
    by (rule add_left_imp_eq)
qed

lemma str_nat_not_Nil: "str_nat n \<noteq> []"
  by (subst str_nat.simps) simp

lemma str_nat_codes: "c \<in> set (str_nat n) \<Longrightarrow> 48 \<le> (of_char c :: nat) \<and> (of_char c :: nat) \<le> 57"
proof (induction n rule: str_nat.induct)
  case (1 n)
  show ?case
  proof (cases "n < 10")
    case True
    with "1.prems" show ?thesis
      by (subst (asm) str_nat.simps) (simp add: digit_char_code)
  next
    case False
    with "1.prems" have "c \<in> set (str_nat (n div 10)) \<or> c = digit_char (n mod 10)"
      by (subst (asm) str_nat.simps) auto
    then show ?thesis
      using "1.IH" [OF False] digit_char_code [of "n mod 10"] by auto
  qed
qed

lemma str_nat_inj: "str_nat m = str_nat n \<Longrightarrow> m = n"
proof (induction m arbitrary: n rule: str_nat.induct)
  case (1 m)
  show ?case
  proof (cases "m < 10")
    case m: True
    show ?thesis
    proof (cases "n < 10")
      case True
      with m "1.prems" show ?thesis
        by (simp add: str_nat.simps [of m] str_nat.simps [of n] digit_char_inj)
    next
      case False
      with m "1.prems" show ?thesis
        using str_nat_not_Nil [of "n div 10"]
        by (auto simp: str_nat.simps [of m] str_nat.simps [of n])
    qed
  next
    case m: False
    show ?thesis
    proof (cases "n < 10")
      case True
      with m "1.prems" show ?thesis
        using str_nat_not_Nil [of "m div 10"]
        by (auto simp: str_nat.simps [of m] str_nat.simps [of n])
    next
      case False
      with m "1.prems" have "str_nat (m div 10) = str_nat (n div 10)"
        and "digit_char (m mod 10) = digit_char (n mod 10)"
        by (simp_all add: str_nat.simps [of m] str_nat.simps [of n])
      then have "m div 10 = n div 10" and "m mod 10 = n mod 10"
        using "1.IH" [OF m] by (auto intro: digit_char_inj)
      then show ?thesis
        by (metis div_mult_mod_eq)
    qed
  qed
qed

lemma str_int_inj: "str_int v = str_int w \<Longrightarrow> v = w"
proof -
  have neg: "CHR ''-'' # str_nat a \<noteq> str_nat b" for a b
  proof
    assume "CHR ''-'' # str_nat a = str_nat b"
    then have "CHR ''-'' \<in> set (str_nat b)"
      by (metis list.set_intros(1))
    from str_nat_codes [OF this] show False by simp
  qed
  assume "str_int v = str_int w"
  then show ?thesis
    using neg [of "nat (- v)" "nat w"] neg [of "nat (- w)" "nat v"]
    by (auto simp: str_int_def dest!: str_nat_inj split: if_splits)
qed

lemma str_int_no_colon: "CHR '':'' \<notin> set (str_int v)"
  using str_nat_codes [of "CHR '':''"] by (auto simp: str_int_def)

lemma append_sep_eq:
  assumes "x \<notin> set xs" "x \<notin> set xs'" "xs @ x # ys = xs' @ x # ys'"
  shows "xs = xs' \<and> ys = ys'"
  using assms
proof (induction xs arbitrary: xs')
  case Nil
  then show ?case by (cases xs') auto
next
  case (Cons a xs)
  then show ?case by (cases xs') auto
qed

lemma id_eq_iff:
  "d @ ''::v'' @ str_int v @ ''::chunk-'' @ str_nat i = d @ ''::v'' @ str_int w @ ''::chunk-'' @ str_nat j
   \<longleftrightarrow> v = w \<and> i = j"
proof
  assume "d @ ''::v'' @ str_int v @ ''::chunk-'' @ str_nat i =
    d @ ''::v'' @ str_int w @ ''::chunk-'' @ str_nat j"
  then have "str_int v @ CHR '':'' # ('':chunk-'' @ str_nat i) =
    str_int w @ CHR '':'' # ('':chunk-'' @ str_nat j)"
    by simp
  from append_sep_eq [OF str_int_no_colon str_int_no_colon this]
  show "v = w \<and> i = j"
    by (auto dest: str_int_inj str_nat_inj)
next
  assume "v = w \<and> i = j"
  then show "d @ ''::v'' @ str_int v @ ''::chunk-'' @ str_nat i =
    d @ ''::v'' @ str_int w @ ''::chunk-'' @ str_nat j"
    by simp
qed

lemma rec_id_build_records:
  "map rec_id (build_records d v a f t chunks) =
     map (\<lambda>i. d @ ''::v'' @ str_int v @ ''::chunk-'' @ str_nat i) [0..<length chunks]"
  by (rule nth_equalityI)
    (simp_all add: build_records_def make_record_def Let_def nth_enumerate_eq)

lemma ids_of_versions_disjoint:
  assumes "v1 \<noteq> v2"
  shows "set (map rec_id (build_records d v1 a1 f1 t1 chunks1)) \<inter>
         set (map rec_id (build_records d v2 a2 f2 t2 chunks2)) = {}"
proof -
  have "x \<notin> set (map rec_id (build_records d v2 a2 f2 t2 chunks2))"
    if x: "x \<in> set (map rec_id (build_records d v1 a1 f1 t1 chunks1))" for x
  proof
    assume y: "x \<in> set (map rec_id (build_records d v2 a2 f2 t2 chunks2))"
    from x obtain i where "x = d @ ''::v'' @ str_int v1 @ ''::chunk-'' @ str_nat i"
      unfolding rec_id_build_records by auto
    moreover from y obtain j where "x = d @ ''::v'' @ str_int v2 @ ''::chunk-'' @ str_nat j"
      unfolding rec_id_build_records by auto
    ultimately have "v1 = v2"
      by (metis id_eq_iff)
    with assms show False by simp
  qed
  then show ?thesis by blast
qed

text \<open>
  C2. The ids of a batch are \<open>doc_id::v<version>::chunk-<index>\<close> with the indices
  \<open>0, 1, \<dots>\<close> in chunk order, the version and the index in decimal; and two batches of the
  same \<open>doc_id\<close> with different versions share no id, whatever the files, paths, chunking
  parameters, flags and times of the two ingestions.
\<close>

theorem version_ids_disjoint:
  "map rec_id (build_records doc_id v1 a1 f1 t1 chunks1) =
     map (\<lambda>i. doc_id @ ''::v'' @ str_int v1 @ ''::chunk-'' @ str_nat i) [0..<length chunks1]
   \<and> (v1 \<noteq> v2 \<longrightarrow>
        set (map rec_id (build_records doc_id v1 a1 f1 t1 chunks1)) \<inter>
        set (map rec_id (build_records doc_id v2 a2 f2 t2 chunks2)) = {})
   \<and> (v1 \<noteq> v2 \<longrightarrow>
        ingest_document fs1 size1 overlap1 t1 path1 doc_id v1 a1 = Some (Inr records1) \<longrightarrow>
        ingest_document fs2 size2 overlap2 t2 path2 doc_id v2 a2 = Some (Inr records2) \<longrightarrow>
        set (map rec_id records1) \<inter> set (map rec_id records2) = {})"
proof (intro conjI impI)
  show "map rec_id (build_records doc_id v1 a1 f1 t1 chunks1) =
     map (\<lambda>i. doc_id @ ''::v'' @ str_int v1 @ ''::chunk-'' @ str_nat i) [0..<length chunks1]"
    by (rule rec_id_build_records)
next
  assume "v1 \<noteq> v2"
  then show "set (map rec_id (build_records doc_id v1 a1 f1 t1 chunks1)) \<inter>
        set (map rec_id (build_records doc_id v2 a2 f2 t2 chunks2)) = {}"
    by (rule ids_of_versions_disjoint)
next
  assume ne: "v1 \<noteq> v2"
    and i1: "ingest_document fs1 size1 overlap1 t1 path1 doc_id v1 a1 = Some (Inr records1)"
    and i2: "ingest_document fs2 size2 overlap2 t2 path2 doc_id v2 a2 = Some (Inr records2)"
  from i1 obtain cs1 where r1: "records1 = build_records doc_id v1 a1 (basename path1) t1 cs1"
    by (auto simp: ingest_document_def Let_def split: sum.splits option.splits)
  from i2 obtain cs2 where r2: "records2 = build_records doc_id v2 a2 (basename path2) t2 cs2"
    by (auto simp: ingest_document_def Let_def split: sum.splits option.splits)
  show "set (map rec_id records1) \<inter> set (map rec_id records2) = {}"
    unfolding r1 r2 using ne by (rule ids_of_versions_disjoint)
qed

theorem version_ids_disjoint_witness:
  "ingest_document (one_txt ''Hello  world.'') 10 2 ''2024-01-01T00:00:00'' ''notes.txt''
        ''notes'' 1 True
     = Some (Inr [\<lparr>rec_id = ''notes::v1::chunk-0'', rec_chunk_text = ''Hello worl'',
            rec_metadata = \<lparr>md_doc_id = ''notes'', md_doc_version = 1, md_is_active = True,
              md_source = ''notes.txt'', md_pages = ''1'',
              md_ingested_at = ''2024-01-01T00:00:00''\<rparr>\<rparr>,
          \<lparr>rec_id = ''notes::v1::chunk-1'', rec_chunk_text = ''rld.'',
            rec_metadata = \<lparr>md_doc_id = ''notes'', md_doc_version = 1, md_is_active = True,
              md_source = ''notes.txt'', md_pages = ''1'',
              md_ingested_at = ''2024-01-01T00:00:00''\<rparr>\<rparr>])
   \<and> ingest_document (one_txt ''Hello  world.'') 20 5 ''2024-06-30T12:00:00'' ''notes.txt''
        ''notes'' 12 False
     = Some (Inr [\<lparr>rec_id = ''notes::v12::chunk-0'', rec_chunk_text = ''Hello world.'',
            rec_metadata = \<lparr>md_doc_id = ''notes'', md_doc_version = 12, md_is_active = False,
              md_source = ''notes.txt'', md_pages = ''1'',
              md_ingested_at = ''2024-06-30T12:00:00''\<rparr>\<rparr>])
   \<and> {''notes::v1::chunk-0'', ''notes::v1::chunk-1''} \<inter> {''notes::v12::chunk-0''} = {}"
proof -
  let ?rs1 = "[\<lparr>rec_id = ''notes::v1::chunk-0'', rec_chunk_text = ''Hello worl'',
            rec_metadata = \<lparr>md_doc_id = ''notes'', md_doc_version = 1, md_is_active = True,
              md_source = ''notes.txt'', md_pages = ''1'',
              md_ingested_at = ''2024-01-01T00:00:00''\<rparr>\<rparr>,
          \<lparr>rec_id = ''notes::v1::chunk-1'', rec_chunk_text = ''rld.'',
            rec_metadata = \<lparr>md_doc_id = ''notes'', md_doc_version = 1, md_is_active = True,
              md_source = ''notes.txt'', md_pages = ''1'',
              md_ingested_at = ''2024-01-01T00:00:00''\<rparr>\<rparr>]"
  let ?rs2 = "[\<lparr>rec_id = ''notes::v12::chunk-0'', rec_chunk_text = ''Hello world.'',
            rec_metadata = \<lparr>md_doc_id = ''notes'', md_doc_version = 12, md_is_active = False,
              md_source = ''notes.txt'', md_pages = ''1'',
              md_ingested_at = ''2024-06-30T12:00:00''\<rparr>\<rparr>]"
  have i1: "ingest_document (one_txt ''Hello  world.'') 10 2 ''2024-01-01T00:00:00'' ''notes.txt''
        ''notes'' 1 True = Some (Inr ?rs1)"
    by code_simp
  have i2: "ingest_document (one_txt ''Hello  world.'') 20 5 ''2024-06-30T12:00:00'' ''notes.txt''
        ''notes'' 12 False = Some (Inr ?rs2)"
    by code_simp
  have ne: "(1::int) \<noteq> 12" by simp
  have "set (map rec_id ?rs1) \<inter> set (map rec_id ?rs2) = {}"
    by (rule version_ids_disjoint [THEN conjunct2, THEN conjunct2, rule_format, OF ne i1 i2])
  then have "{''notes::v1::chunk-0'', ''notes::v1::chunk-1''} \<inter> {''notes::v12::chunk-0''} = {}"
    by simp
  with i1 i2 show ?thesis
    by blast
qed

subsection \<open>The shape of the normalized stream\<close>

lemma isspace_space: "isspace (CHR '' '')"
  by (simp add: isspace_def)

lemma spaced_Cons: "spaced (a # cs) \<longleftrightarrow> (cs = [] \<or> \<not> isspace a \<or> \<not> isspace (hd cs)) \<and> spaced cs"
  by (cases cs) auto

lemma spaced_append:
  "spaced (xs @ ys) \<longleftrightarrow>
     spaced xs \<and> spaced ys \<and> (xs = [] \<or> ys = [] \<or> \<not> isspace (last xs) \<or> \<not> isspace (hd ys))"
proof (induction xs)
  case Nil
  show ?case by simp
next
  case (Cons a xs)
  show ?case
    by (auto simp: spaced_Cons Cons.IH hd_append)
qed

lemma spaced_nth:
  "spaced xs \<Longrightarrow> Suc i < length xs \<Longrightarrow> \<not> isspace (xs ! i) \<or> \<not> isspace (xs ! Suc i)"
proof (induction xs arbitrary: i rule: spaced.induct)
  case (1 a b cs)
  then show ?case by (cases i) auto
qed simp_all

lemma spaced_rev: "spaced (rev xs) = spaced xs"
  by (induction xs) (auto simp: spaced_append spaced_Cons last_rev hd_rev)

lemma spaced_dropWhile: "spaced xs \<Longrightarrow> spaced (dropWhile P xs)"
  using spaced_append [of "takeWhile P xs" "dropWhile P xs"] by simp

lemma spaced_strip: "spaced s \<Longrightarrow> spaced (strip s)"
  by (simp add: strip_def spaced_rev spaced_dropWhile)

lemma sub_ws_hd: "xs \<noteq> [] \<Longrightarrow> \<not> isspace (hd xs) \<Longrightarrow> sub_ws xs \<noteq> [] \<and> hd (sub_ws xs) = hd xs"
  by (cases xs) auto

lemma spaced_sub_ws: "spaced (sub_ws s)"
proof (induction s rule: sub_ws.induct)
  case 1
  show ?case by simp
next
  case (2 c cs)
  show ?case
  proof (cases "isspace c")
    case True
    let ?d = "dropWhile isspace cs"
    have "sub_ws ?d = [] \<or> \<not> isspace (hd (sub_ws ?d))"
    proof (cases "?d = []")
      case True
      then have "sub_ws ?d = []" by (simp only: sub_ws.simps)
      then show ?thesis ..
    next
      case False
      then have "\<not> isspace (hd ?d)" by (rule hd_dropWhile)
      with False show ?thesis using sub_ws_hd [of ?d] by simp
    qed
    with True "2.IH"(1) show ?thesis
      by (auto simp: spaced_Cons)
  next
    case False
    with "2.IH"(2) show ?thesis
      by (simp add: spaced_Cons)
  qed
qed

lemma strip_eq_Nil: "strip s = [] \<longleftrightarrow> (\<forall>c\<in>set s. isspace c)"
proof -
  have "strip s = [] \<longleftrightarrow> (\<forall>c\<in>set (dropWhile isspace s). isspace c)"
    by (simp add: strip_def dropWhile_eq_Nil_conv)
  also have "\<dots> \<longleftrightarrow> (\<forall>c\<in>set s. isspace c)"
  proof
    assume a: "\<forall>c\<in>set (dropWhile isspace s). isspace c"
    show "\<forall>c\<in>set s. isspace c"
    proof
      fix c assume "c \<in> set s"
      then have "c \<in> set (takeWhile isspace s) \<or> c \<in> set (dropWhile isspace s)"
        by (metis Un_iff set_append takeWhile_dropWhile_id)
      with a show "isspace c" by (auto dest: set_takeWhileD)
    qed
  next
    assume "\<forall>c\<in>set s. isspace c"
    then show "\<forall>c\<in>set (dropWhile isspace s). isspace c"
      by (auto dest: set_dropWhileD)
  qed
  finally show ?thesis .
qed

lemma last_dropWhile: "dropWhile P xs \<noteq> [] \<Longrightarrow> last (dropWhile P xs) = last xs"
  by (metis last_appendR takeWhile_dropWhile_id)

lemma strip_hd_last:
  assumes "strip s \<noteq> []"
  shows "\<not> isspace (hd (strip s)) \<and> \<not> isspace (last (strip s))"
proof -
  let ?t = "dropWhile isspace s"
  let ?u = "dropWhile isspace (rev ?t)"
  have u: "?u \<noteq> []" using assms by (simp add: strip_def)
  have t: "?t \<noteq> []"
  proof
    assume "?t = []"
    then have "?u = []" by (simp only: rev.simps dropWhile.simps)
    with u show False ..
  qed
  have "\<not> isspace (hd ?u)" using u by (rule hd_dropWhile)
  then have l: "\<not> isspace (last (strip s))"
    using u by (simp add: strip_def last_rev)
  have "last ?u = last (rev ?t)" using u by (rule last_dropWhile)
  also have "\<dots> = hd ?t" using t by (simp add: last_rev)
  finally have "\<not> isspace (last ?u)"
    using hd_dropWhile [OF t] by simp
  then have "\<not> isspace (hd (strip s))"
    using u by (simp add: strip_def hd_rev)
  with l show ?thesis by simp
qed

lemma tidy_clean_text: "tidy (clean_text s)"
  using strip_hd_last [of "sub_ws s"]
  by (auto simp: tidy_def clean_text_def spaced_strip spaced_sub_ws)

lemma tidy_stream_step:
  assumes "tidy (fst st)"
  shows "tidy (fst (stream_step st p))"
proof -
  let ?c = "clean_text (ptext p)"
  have c: "tidy ?c" by (rule tidy_clean_text)
  show ?thesis
  proof (cases "?c = []")
    case True
    with assms show ?thesis by (simp add: stream_step_def)
  next
    case False
    show ?thesis
    proof (cases "fst st = []")
      case True
      with False c show ?thesis by (simp add: stream_step_def Let_def)
    next
      case ne: False
      have "tidy (fst st @ '' '' @ ?c)"
        using assms c ne False
        by (auto simp: tidy_def spaced_append spaced_Cons isspace_space)
      with ne False show ?thesis by (simp add: stream_step_def Let_def)
    qed
  qed
qed

lemma tidy_build_stream: "tidy (fst (build_stream ps))"
proof (induction ps rule: rev_induct)
  case Nil
  show ?case by (simp add: build_stream_def tidy_def)
next
  case (snoc p ps)
  then show ?case by (simp add: build_stream_snoc tidy_stream_step)
qed

lemma py_slice_inside:
  "0 \<le> a \<Longrightarrow> a \<le> b \<Longrightarrow> b \<le> int (length xs) \<Longrightarrow>
   py_slice xs a b = take (nat b - nat a) (drop (nat a) xs)"
  by (simp add: py_slice_def py_index_def Let_def)

subsection \<open>Windows and the pages they cover\<close>

lemma set_take_drop:
  assumes "m + n \<le> length xs"
  shows "set (take n (drop m xs)) = {xs ! j | j. m \<le> j \<and> j < m + n}"
proof (intro equalityI subsetI)
  fix x assume "x \<in> set (take n (drop m xs))"
  then obtain i where i: "i < length (take n (drop m xs))" and x: "x = take n (drop m xs) ! i"
    by (metis in_set_conv_nth)
  from i assms have "i < n" by simp
  with x assms have "x = xs ! (m + i)" by simp
  with \<open>i < n\<close> show "x \<in> {xs ! j | j. m \<le> j \<and> j < m + n}"
    by (intro CollectI exI [of _ "m + i"]) simp
next
  fix x assume "x \<in> {xs ! j | j. m \<le> j \<and> j < m + n}"
  then obtain j where j: "x = xs ! j" "m \<le> j" "j < m + n" by blast
  then have "j - m < length (take n (drop m xs))" using assms by simp
  moreover have "take n (drop m xs) ! (j - m) = x" using j assms by simp
  ultimately show "x \<in> set (take n (drop m xs))"
    by (metis nth_mem)
qed

lemma py_slice_set:
  assumes "0 \<le> a" "a \<le> b" "b \<le> int (length xs)"
  shows "set (py_slice xs a b) = {xs ! nat i | i. a \<le> i \<and> i < b}"
proof -
  have "set (py_slice xs a b) = {xs ! j | j. nat a \<le> j \<and> j < nat a + (nat b - nat a)}"
    unfolding py_slice_inside [OF assms] using assms by (intro set_take_drop) linarith
  also have "\<dots> = {xs ! nat i | i. a \<le> i \<and> i < b}"
  proof (intro equalityI subsetI)
    fix x assume "x \<in> {xs ! j | j. nat a \<le> j \<and> j < nat a + (nat b - nat a)}"
    then obtain j where "x = xs ! j" "nat a \<le> j" "j < nat a + (nat b - nat a)" by blast
    then show "x \<in> {xs ! nat i | i. a \<le> i \<and> i < b}"
      using assms by (intro CollectI exI [of _ "int j"]) auto
  next
    fix x assume "x \<in> {xs ! nat i | i. a \<le> i \<and> i < b}"
    then obtain i where "x = xs ! nat i" "a \<le> i" "i < b" by blast
    then show "x \<in> {xs ! j | j. nat a \<le> j \<and> j < nat a + (nat b - nat a)}"
      using assms by (intro CollectI exI [of _ "nat i"]) auto
  qed
  finally show ?thesis .
qed

lemma window_bounds:
  assumes "ov < cs" "0 < cs" "k < window_count L cs ov"
  shows "0 \<le> fst (window L cs ov k) \<and> fst (window L cs ov k) < snd (window L cs ov k)
    \<and> snd (window L cs ov k) \<le> int L"
proof -
  have "0 < cs - ov" using assms(1) by simp
  from window_count_iff [OF this, of k L] assms(3)
  have lt: "int k * (cs - ov) < int L" by simp
  have "0 \<le> int k * (cs - ov)" using assms(1) by simp
  with lt assms(2) show ?thesis by (simp add: window_def)
qed

lemma length_windows: "length (windows L cs ov) = window_count L cs ov"
  by (simp add: windows_def)

lemma nth_windows: "k < window_count L cs ov \<Longrightarrow> windows L cs ov ! k = window L cs ov k"
  by (simp add: windows_def)

lemma in_windows: "w \<in> set (windows L cs ov) \<Longrightarrow> \<exists>k<window_count L cs ov. w = window L cs ov k"
  by (auto simp: windows_def)

lemma window_emitted:
  assumes "tidy ft" "2 \<le> cs" "ov < cs" "k < window_count (length ft) cs ov"
  shows "emitted ft (window (length ft) cs ov k)"
proof -
  define s where "s = fst (window (length ft) cs ov k)"
  define e where "e = snd (window (length ft) cs ov k)"
  have w: "window (length ft) cs ov k = (s, e)" by (simp add: s_def e_def)
  have cs: "0 < cs" using assms(2) by simp
  from window_bounds [OF assms(3) cs assms(4)]
  have b: "0 \<le> s" "s < e" "e \<le> int (length ft)" by (simp_all add: s_def e_def)
  have e: "e = min (s + cs) (int (length ft))" by (simp add: s_def e_def window_def)
  have ne: "ft \<noteq> []" using b by auto
  have set: "set (py_slice ft s e) = {ft ! nat i | i. s \<le> i \<and> i < e}"
    using b by (intro py_slice_set) simp_all
  have first: "ft ! nat s \<in> set (py_slice ft s e)"
    unfolding set using b by (intro CollectI exI [of _ s]) simp
  have "\<exists>c\<in>set (py_slice ft s e). \<not> isspace c"
  proof (cases "Suc (nat s) < length ft")
    case True
    then have "s + 1 < e" using assms(2) b e by simp
    then have "ft ! nat (s + 1) \<in> set (py_slice ft s e)"
      unfolding set by (intro CollectI exI [of _ "s + 1"]) simp
    moreover have "nat (s + 1) = Suc (nat s)" using b by simp
    ultimately have second: "ft ! Suc (nat s) \<in> set (py_slice ft s e)" by simp
    have "spaced ft" using assms(1) by (simp add: tidy_def)
    from spaced_nth [OF this True] first second show ?thesis by blast
  next
    case False
    then have "nat s = length ft - 1" using b by simp
    then have "ft ! nat s = last ft" using ne by (simp add: last_conv_nth)
    moreover have "\<not> isspace (last ft)" using assms(1) ne by (simp add: tidy_def)
    ultimately show ?thesis using first by metis
  qed
  then show ?thesis
    by (simp add: emitted_def w strip_eq_Nil)
qed

lemma last_window_end:
  assumes "ov < cs" "0 \<le> ov" "0 < L"
  shows "windows L cs ov \<noteq> [] \<and> snd (last (windows L cs ov)) = int L"
proof -
  let ?n = "window_count L cs ov"
  have pos: "0 < cs - ov" using assms(1) by simp
  have n: "0 < ?n" using window_count_iff [OF pos, of 0 L] assms(3) by simp
  then have ne: "windows L cs ov \<noteq> []" using length_windows [of L cs ov] by auto
  have "\<not> int ?n * (cs - ov) < int L"
    using window_count_iff [OF pos, of ?n L] by simp
  then have ge: "int L \<le> int ?n * (cs - ov)" by simp
  have "int ?n * (cs - ov) = int (?n - 1) * (cs - ov) + (cs - ov)"
    using n by (simp add: algebra_simps of_nat_diff)
  also have "\<dots> \<le> int (?n - 1) * (cs - ov) + cs" using assms(2) by simp
  finally have "int L \<le> int (?n - 1) * (cs - ov) + cs" using ge by simp
  then have "snd (window L cs ov (?n - 1)) = int L" by (simp add: window_def)
  moreover have "last (windows L cs ov) = window L cs ov (?n - 1)"
    using ne n by (simp add: last_conv_nth length_windows nth_windows)
  ultimately show ?thesis using ne by simp
qed

text \<open>
  C4 (as the code has it). For \<open>chunk_size > overlap \<ge> 0\<close> and a stream of length
  \<open>L > 0\<close>, chunking returns; the windows it examines start exactly at the multiples of
  \<open>step = chunk_size - overlap\<close> below \<open>L\<close>, window \<open>k\<close> being
  \<open>(k * step, min (k * step + chunk_size) L)\<close>, and the last one ends at \<open>L\<close>. The chunks
  emitted are those of the windows whose text is not empty after stripping, in order; when
  \<open>chunk_size \<ge> 2\<close> that is every window.
\<close>

theorem windows_examined_and_emitted:
  assumes "overlap < chunk_size" "0 \<le> overlap" "fst (build_stream ps) \<noteq> []"
  shows "chunk_pages ps chunk_size overlap =
      Some (map (window_chunk (fst (build_stream ps)) (snd (build_stream ps)))
        (filter (emitted (fst (build_stream ps)))
          (windows (length (fst (build_stream ps))) chunk_size overlap)))
    \<and> (\<forall>k. k < length (windows (length (fst (build_stream ps))) chunk_size overlap)
          \<longleftrightarrow> int k * (chunk_size - overlap) < int (length (fst (build_stream ps))))
    \<and> (\<forall>k<length (windows (length (fst (build_stream ps))) chunk_size overlap).
          windows (length (fst (build_stream ps))) chunk_size overlap ! k =
            (int k * (chunk_size - overlap),
             min (int k * (chunk_size - overlap) + chunk_size)
               (int (length (fst (build_stream ps))))))
    \<and> windows (length (fst (build_stream ps))) chunk_size overlap \<noteq> []
    \<and> snd (last (windows (length (fst (build_stream ps))) chunk_size overlap))
        = int (length (fst (build_stream ps)))
    \<and> (2 \<le> chunk_size \<longrightarrow>
          filter (emitted (fst (build_stream ps)))
            (windows (length (fst (build_stream ps))) chunk_size overlap)
          = windows (length (fst (build_stream ps))) chunk_size overlap)"
proof -
  let ?ft = "fst (build_stream ps)"
  let ?L = "length ?ft"
  have pos: "0 < chunk_size - overlap" using assms(1) by simp
  have a: "chunk_pages ps chunk_size overlap =
      Some (map (window_chunk ?ft (snd (build_stream ps)))
        (filter (emitted ?ft) (windows ?L chunk_size overlap)))"
    using assms(1) by (rule chunk_pages_windows)
  have b: "\<forall>k. k < length (windows ?L chunk_size overlap)
          \<longleftrightarrow> int k * (chunk_size - overlap) < int ?L"
    by (simp add: length_windows window_count_iff [OF pos])
  have c: "\<forall>k<length (windows ?L chunk_size overlap).
          windows ?L chunk_size overlap ! k =
            (int k * (chunk_size - overlap),
             min (int k * (chunk_size - overlap) + chunk_size) (int ?L))"
    by (simp add: length_windows nth_windows window_def)
  have d: "windows ?L chunk_size overlap \<noteq> [] \<and>
      snd (last (windows ?L chunk_size overlap)) = int ?L"
    using assms by (intro last_window_end) simp_all
  have e: "filter (emitted ?ft) (windows ?L chunk_size overlap) = windows ?L chunk_size overlap"
    if "2 \<le> chunk_size"
  proof -
    have "\<forall>w\<in>set (windows ?L chunk_size overlap). emitted ?ft w"
      using window_emitted [OF tidy_build_stream that assms(1)]
      by (auto dest!: in_windows)
    then show ?thesis by simp
  qed
  from a b c d e show ?thesis by blast
qed

theorem windows_examined_and_emitted_witness:
  "(2::int) < 10 \<and> (0::int) \<le> 2
   \<and> fst (build_stream pages_1_2_5) = ''Hello world. Goodbye now.''
   \<and> windows 25 10 2 = [(0, 10), (8, 18), (16, 25), (24, 25)]
   \<and> chunk_pages pages_1_2_5 10 2 =
       Some [\<lparr>chunk_text = ''Hello worl'', pages = [1]\<rparr>, \<lparr>chunk_text = ''rld. Goodb'', pages = [1, 5]\<rparr>,
             \<lparr>chunk_text = ''dbye now.'', pages = [5]\<rparr>, \<lparr>chunk_text = ''.'', pages = [5]\<rparr>]
   \<and> snd (last (windows (length (fst (build_stream pages_1_2_5))) 10 2)) = 25
   \<and> filter (emitted (fst (build_stream pages_1_2_5)))
        (windows (length (fst (build_stream pages_1_2_5))) 10 2)
      = windows (length (fst (build_stream pages_1_2_5))) 10 2"
proof -
  have h1: "(2::int) < 10" and h2: "(0::int) \<le> 2" and h4: "(2::int) \<le> 10"
    by simp_all
  have ft: "fst (build_stream pages_1_2_5) = ''Hello world. Goodbye now.''"
    by code_simp
  have h3: "fst (build_stream pages_1_2_5) \<noteq> []"
    unfolding ft by simp
  have len: "int (length (fst (build_stream pages_1_2_5))) = 25"
    unfolding ft by simp
  note t = windows_examined_and_emitted [OF h1 h2 h3]
  from t have "snd (last (windows (length (fst (build_stream pages_1_2_5))) 10 2))
      = int (length (fst (build_stream pages_1_2_5)))"
    by blast
  then have l: "snd (last (windows (length (fst (build_stream pages_1_2_5))) 10 2)) = 25"
    unfolding len .
  from t h4 have f: "filter (emitted (fst (build_stream pages_1_2_5)))
        (windows (length (fst (build_stream pages_1_2_5))) 10 2)
      = windows (length (fst (build_stream pages_1_2_5))) 10 2"
    by blast
  have w: "windows 25 10 2 = [(0, 10), (8, 18), (16, 25), (24, 25)]"
    by code_simp
  have c: "chunk_pages pages_1_2_5 10 2 =
       Some [\<lparr>chunk_text = ''Hello worl'', pages = [1]\<rparr>, \<lparr>chunk_text = ''rld. Goodb'', pages = [1, 5]\<rparr>,
             \<lparr>chunk_text = ''dbye now.'', pages = [5]\<rparr>, \<lparr>chunk_text = ''.'', pages = [5]\<rparr>]"
    by code_simp
  from h1 h2 ft w c l f show ?thesis
    by blast
qed

text \<open>
  With \<open>chunk_size = 1\<close> and \<open>overlap = 0\<close> the stream \<open>a b\<close> has the three windows
  starting at 0, 1 and 2, and the middle one, a single space, is not emitted: two chunks.
\<close>

theorem not_every_window_emitted_counterexample:
  "fst (build_stream [\<lparr>page = 1, ptext = ''a b''\<rparr>]) = ''a b''
   \<and> windows 3 1 0 = [(0, 1), (1, 2), (2, 3)]
   \<and> chunk_pages [\<lparr>page = 1, ptext = ''a b''\<rparr>] 1 0 =
       Some [\<lparr>chunk_text = ''a'', pages = [1]\<rparr>, \<lparr>chunk_text = ''b'', pages = [1]\<rparr>]"
proof -
  have a: "fst (build_stream [\<lparr>page = 1, ptext = ''a b''\<rparr>]) = ''a b''"
    by code_simp
  have b: "windows 3 1 0 = [(0, 1), (1, 2), (2, 3)]"
    by code_simp
  have c: "chunk_pages [\<lparr>page = 1, ptext = ''a b''\<rparr>] 1 0 =
       Some [\<lparr>chunk_text = ''a'', pages = [1]\<rparr>, \<lparr>chunk_text = ''b'', pages = [1]\<rparr>]"
    by code_simp
  from a b c show ?thesis by blast
qed



end
